theory Spec2Isabelle
  imports Main "HOL-Library.Word"
begin

section \<open>Admin service: the command-handler table (services/admin/admin.h)\<close>

text \<open>
  \<open>Admin\<close> keeps its reply handlers in \<open>std::map<uint32_t, CommandHandler>\<close>.
  A handler is a \<open>std::function\<close>; the model keeps either the empty lambda that
  \<open>GetAvailableSerial\<close> stores as a placeholder, or a handler of the caller, named by
  a value of type \<open>'h\<close>. Executing a handler is \<open>io_service.post\<close> of a closure
  that calls it: the model appends the handler to the list \<open>posted\<close>.
\<close>

type_synonym uint32_t = "32 word"

datatype 'h CommandHandler = EmptyLambda | Handler 'h

record 'h Admin =
  is_server :: bool
  command_serial_received :: uint32_t
  command_handlers :: "uint32_t \<rightharpoonup> 'h CommandHandler"
  posted :: "'h CommandHandler list"

definition InsertHandler :: "uint32_t \<Rightarrow> 'h CommandHandler \<Rightarrow> 'h Admin \<Rightarrow> 'h Admin" where
  "InsertHandler serial command_handler a =
     a\<lparr>command_handlers := (command_handlers a)(serial \<mapsto> command_handler)\<rparr>"

definition EraseHandler :: "uint32_t \<Rightarrow> 'h Admin \<Rightarrow> 'h Admin" where
  "EraseHandler serial a = a\<lparr>command_handlers := (command_handlers a)(serial := None)\<rparr>"

text \<open>
  \<open>ExecuteAndRemoveCommandHandler(serial)\<close> never reads its argument: the lookup, the
  posted handler and the erased key are all \<open>command_serial_received_\<close>.
\<close>

definition ExecuteAndRemoveCommandHandler :: "uint32_t \<Rightarrow> 'h Admin \<Rightarrow> 'h Admin" where
  "ExecuteAndRemoveCommandHandler serial a =
     (case command_handlers a (command_serial_received a) of
        None \<Rightarrow> a
      | Some command_handler \<Rightarrow>
          EraseHandler (command_serial_received a) (a\<lparr>posted := posted a @ [command_handler]\<rparr>))"

text \<open>
  The \<open>for\<close> loop of \<open>GetAvailableSerial\<close>, entered with \<open>serial\<close>: it runs while
  \<open>serial < std::numeric_limits<uint32_t>::max()\<close>, tests the key
  \<open>serial + !!is_server_\<close> and steps by \<open>++serial\<close>. Falling out of the loop is
  \<open>return 0\<close>.
\<close>

function GetAvailableSerial_from :: "uint32_t \<Rightarrow> 'h Admin \<Rightarrow> uint32_t \<times> 'h Admin" where
  "GetAvailableSerial_from serial a =
     (if serial < 0xFFFFFFFF then
        (if command_handlers a (serial + of_bool (is_server a)) = None
         then (serial + of_bool (is_server a),
               a\<lparr>command_handlers :=
                    (command_handlers a)(serial + of_bool (is_server a) \<mapsto> EmptyLambda)\<rparr>)
         else GetAvailableSerial_from (serial + 1) a)
      else (0, a))"
  by pat_completeness auto
termination
proof (relation "measure (\<lambda>(serial, a). 2 ^ 32 - unat serial)")
  show "wf (measure (\<lambda>(serial :: uint32_t, a :: 'h Admin). 2 ^ 32 - unat serial))"
    by simp
next
  fix serial :: uint32_t and a :: "'h Admin"
  assume lt: "serial < 0xFFFFFFFF"
  then have "unat serial < 4294967295"
    by (simp add: word_less_nat_alt)
  moreover from this have "unat (serial + 1) = unat serial + 1"
    by (simp add: unat_word_ariths)
  ultimately show "((serial + 1, a), (serial, a)) \<in> measure (\<lambda>(serial, a). 2 ^ 32 - unat serial)"
    by simp
qed

definition GetAvailableSerial :: "'h Admin \<Rightarrow> uint32_t \<times> 'h Admin" where
  "GetAvailableSerial a = GetAvailableSerial_from 3 a"

section \<open>Proxy configuration (common/config/proxy.h)\<close>

record HttpProxy =
  host :: string
  port :: string
  user_agent :: string
  username :: string
  domain :: string
  password :: string
  reuse_ntlm :: bool
  reuse_kerb :: bool

definition HttpProxy_IsSet :: "HttpProxy \<Rightarrow> bool" where
  "HttpProxy_IsSet p = (\<not> HttpProxy.host p = [] \<and> \<not> HttpProxy.port p = [])"

text \<open>
  Modelled from the spec: the enumeration \<open>Socks::Version\<close> of
  \<open>ssf/network/socks/socks.h\<close>, which is not among the sources. The spec gives a SOCKS
  proxy the versions 4 and 5; \<open>kVUnknown\<close> is the enumerator that \<open>IsSet\<close> names.
\<close>

datatype Version = kVUnknown | kV4 | kV5

record SocksProxy =
  version :: Version
  host :: string
  port :: string

definition SocksProxy_IsSet :: "SocksProxy \<Rightarrow> bool" where
  "SocksProxy_IsSet p =
     (version p \<noteq> kVUnknown \<and> \<not> SocksProxy.host p = [] \<and> \<not> SocksProxy.port p = [])"

section \<open>Buffered TLS stream: \<open>TLSStreamBufferer\<close> (layer/cryptography/tls/OpenSSL/impl.h)\<close>

text \<open>
  A \<open>boost::system::error_code\<close> is tested in two ways by the sources: \<open>!ec\<close> (no
  error) and \<open>ec.value() == operation_aborted\<close>. \<open>invalid_argument\<close> is the code the
  layers assign when an endpoint cannot be built; every other code is \<open>other_error n\<close>.
\<close>

datatype error_code = success | operation_aborted | invalid_argument | other_error nat

definition lower_queue_size_bound :: nat where
  "lower_queue_size_bound = 1 * 1024 * 1024"

definition higher_queue_size_bound :: nat where
  "higher_queue_size_bound = 16 * 1024 * 1024"

definition receive_buffer_size :: nat where
  "receive_buffer_size = 50 * 1024"

text \<open>
  A pending read operation (\<open>io::pending_read_stream_operation\<close>) holds the caller's
  buffers, of which the model keeps the total size, and the caller's handler, named by a
  value of type \<open>'h\<close>.
\<close>

datatype 'h pending_read = Op (op_buffer_size: nat) (op_handler: 'h)

text \<open>
  What \<open>io_service_.post\<close> queues: the two member functions that are posted, the
  completion of a handler with the error code and byte count bound at the time of the
  post, and the closure of the error branch of \<open>handle_data_n_ops\<close>, which reads
  \<open>status_\<close> only when it runs.
\<close>

datatype 'h posted_handler =
    Post_async_pull_packets
  | Post_handle_data_n_ops
  | Post_complete 'h error_code nat
  | Post_complete_status 'h

text \<open>
  The members \<open>status_\<close>, \<open>data_queue_\<close> (a \<open>streambuf\<close>, of which the model
  keeps \<open>size()\<close>), \<open>op_queue_\<close> and \<open>pulling_\<close>, together with what the object
  has handed to its surroundings: the handlers posted to \<open>io_service_\<close> and not yet run
  (in posting order), the number of \<open>socket_.async_read_some\<close> calls that have not
  completed, and the completions delivered to callers so far.
\<close>

record 'h TLSStreamBufferer =
  status :: error_code
  data_queue :: nat
  op_queue :: "'h pending_read list"
  pulling :: bool
  io_service :: "'h posted_handler list"
  socket_reads :: nat
  completed :: "('h \<times> error_code \<times> nat) list"

text \<open>The constructor: no error, nothing buffered, nothing pending, not pulling.\<close>

definition create :: "'h TLSStreamBufferer" where
  "create = \<lparr>status = success, data_queue = 0, op_queue = [], pulling = False,
             io_service = [], socket_reads = 0, completed = []\<rparr>"

definition post :: "'h posted_handler \<Rightarrow> 'h TLSStreamBufferer \<Rightarrow> 'h TLSStreamBufferer" where
  "post f s = s\<lparr>io_service := io_service s @ [f]\<rparr>"

definition start_pulling :: "'h TLSStreamBufferer \<Rightarrow> 'h TLSStreamBufferer" where
  "start_pulling s =
     (if \<not> pulling s then post Post_async_pull_packets (s\<lparr>pulling := True\<rparr>) else s)"

definition async_read_some :: "nat \<Rightarrow> 'h \<Rightarrow> 'h TLSStreamBufferer \<Rightarrow> 'h TLSStreamBufferer" where
  "async_read_some buffer_size handler s =
     (if buffer_size \<noteq> 0
      then post Post_handle_data_n_ops (s\<lparr>op_queue := op_queue s @ [Op buffer_size handler]\<rparr>)
      else post (Post_complete handler success 0) s)"

text \<open>
  The \<open>while (!op_queue_.empty())\<close> loop of \<open>cancel\<close>: each pass pops the front
  operation and posts its completion with \<open>operation_aborted\<close> and 0 bytes.
\<close>

function cancel_ops :: "'h TLSStreamBufferer \<Rightarrow> 'h TLSStreamBufferer" where
  "cancel_ops s =
     (case op_queue s of
        [] \<Rightarrow> s
      | op # ops \<Rightarrow>
          cancel_ops (post (Post_complete (op_handler op) operation_aborted 0)
                        (s\<lparr>op_queue := ops\<rparr>)))"
  by pat_completeness auto
termination
  by (relation "measure (\<lambda>s. length (op_queue s))") (auto simp: post_def)

definition cancel :: "'h TLSStreamBufferer \<Rightarrow> 'h TLSStreamBufferer" where
  "cancel s = cancel_ops (s\<lparr>pulling := False, data_queue := 0\<rparr>)"

text \<open>
  Modelled from the spec: \<open>fill_buffer\<close> of \<open>io::pending_read_stream_operation\<close>
  (\<open>ssf/io/read_stream_op.h\<close> is not among the sources). The spec has a read copy up
  to \<open>|buf|\<close> bytes of the buffered data; the bytes copied leave the data queue.
\<close>

definition fill_buffer :: "'h pending_read \<Rightarrow> nat \<Rightarrow> nat" where
  "fill_buffer op queued = min (op_buffer_size op) queued"

text \<open>
  \<open>handle_data_n_ops\<close>. \<open>io_service_.dispatch\<close> of the function itself, made from a
  handler that the \<open>io_service\<close> is running, runs it on the spot: the model calls it
  recursively. Each such call has popped one operation.
\<close>

function handle_data_n_ops :: "'h TLSStreamBufferer \<Rightarrow> 'h TLSStreamBufferer" where
  "handle_data_n_ops s =
     (if status s = success then
        (let s1 = (if data_queue s < lower_queue_size_bound \<and> \<not> pulling s
                   then start_pulling s else s)
         in case op_queue s1 of
              [] \<Rightarrow> s1
            | op # ops \<Rightarrow>
                if data_queue s1 \<noteq> 0 then
                  handle_data_n_ops
                    (post (Post_complete (op_handler op) success
                             (fill_buffer op (data_queue s1)))
                       (s1\<lparr>op_queue := ops,
                           data_queue := data_queue s1 - fill_buffer op (data_queue s1)\<rparr>))
                else s1)
      else
        (case op_queue s of
           [] \<Rightarrow> s
         | op # ops \<Rightarrow>
             handle_data_n_ops
               (post (Post_complete_status (op_handler op)) (s\<lparr>op_queue := ops\<rparr>))))"
  by pat_completeness auto
termination
  by (relation "measure (\<lambda>s. length (op_queue s))")
     (auto simp: post_def start_pulling_def split: if_splits)

text \<open>
  \<open>async_pull_packets\<close>: \<open>prepare\<close> leaves \<open>size()\<close> as it is; below the higher
  bound a read of the socket into the prepared buffers is started, otherwise the flag is
  cleared.
\<close>

definition async_pull_packets :: "'h TLSStreamBufferer \<Rightarrow> 'h TLSStreamBufferer" where
  "async_pull_packets s =
     (if data_queue s < higher_queue_size_bound
      then s\<lparr>socket_reads := socket_reads s + 1\<rparr>
      else s\<lparr>pulling := False\<rparr>)"

text \<open>
  The lambda \<open>handler\<close> that \<open>async_pull_packets\<close> hands to the socket, called
  with the error code and the length \<open>len\<close> of the read. \<open>commit\<close> moves the bytes
  read into the prepared buffers to the data queue; the \<open>prepare\<close> that precedes the
  read leaves room for \<open>receive_buffer_size\<close> bytes, which is also the most a read
  returns, so the model adds all of \<open>len\<close>.
\<close>

definition pull_handler :: "error_code \<Rightarrow> nat \<Rightarrow> 'h TLSStreamBufferer \<Rightarrow> 'h TLSStreamBufferer" where
  "pull_handler ec len s =
     handle_data_n_ops
       (if ec = success then
          (let s1 = s\<lparr>data_queue := data_queue s + len\<rparr>
           in if status s1 = success then async_pull_packets s1 else s1)
        else if ec = operation_aborted then cancel s
        else s\<lparr>data_queue := 0, status := ec\<rparr>)"

subsection \<open>The surroundings: the \<open>io_service\<close>, the socket and the owner\<close>

text \<open>
  The \<open>io_service\<close> runs the oldest posted handler. Running a completion calls the
  caller's handler, which the model records in \<open>completed\<close>.
\<close>

definition run_posted :: "'h posted_handler \<Rightarrow> 'h TLSStreamBufferer \<Rightarrow> 'h TLSStreamBufferer" where
  "run_posted f s =
     (case f of
        Post_async_pull_packets \<Rightarrow> async_pull_packets s
      | Post_handle_data_n_ops \<Rightarrow> handle_data_n_ops s
      | Post_complete h ec n \<Rightarrow> s\<lparr>completed := completed s @ [(h, ec, n)]\<rparr>
      | Post_complete_status h \<Rightarrow> s\<lparr>completed := completed s @ [(h, status s, 0)]\<rparr>)"

text \<open>
  What can happen to a bufferer: its owner calls one of the three public members, the
  \<open>io_service\<close> runs the next posted handler, or a read of the socket completes. A read
  into the buffers prepared by \<open>async_pull_packets\<close> returns at most
  \<open>receive_buffer_size\<close> bytes.
\<close>

datatype 'h event =
    Call_start_pulling
  | Call_async_read_some nat 'h
  | Call_cancel
  | Run_posted
  | Read_completes error_code nat

definition possible :: "'h event \<Rightarrow> 'h TLSStreamBufferer \<Rightarrow> bool" where
  "possible e s =
     (case e of
        Run_posted \<Rightarrow> io_service s \<noteq> []
      | Read_completes ec n \<Rightarrow> 0 < socket_reads s \<and> n \<le> receive_buffer_size
      | _ \<Rightarrow> True)"

definition step :: "'h event \<Rightarrow> 'h TLSStreamBufferer \<Rightarrow> 'h TLSStreamBufferer" where
  "step e s =
     (case e of
        Call_start_pulling \<Rightarrow> start_pulling s
      | Call_async_read_some n h \<Rightarrow> async_read_some n h s
      | Call_cancel \<Rightarrow> cancel s
      | Run_posted \<Rightarrow>
          (case io_service s of
             [] \<Rightarrow> s
           | f # fs \<Rightarrow> run_posted f (s\<lparr>io_service := fs\<rparr>))
      | Read_completes ec n \<Rightarrow> pull_handler ec n (s\<lparr>socket_reads := socket_reads s - 1\<rparr>))"

text \<open>
  An execution is a list of events, each possible in the state it meets; \<open>None\<close> when
  one of them is not.
\<close>

fun execute :: "'h event list \<Rightarrow> 'h TLSStreamBufferer \<Rightarrow> 'h TLSStreamBufferer option" where
  "execute [] s = Some s"
| "execute (e # es) s = (if possible e s then execute es (step e s) else None)"

text \<open>
  What running a list of posted handlers delivers to the callers while \<open>status_\<close> is
  \<open>st\<close>.
\<close>

fun deliveries :: "error_code \<Rightarrow> 'h posted_handler list \<Rightarrow> ('h \<times> error_code \<times> nat) list" where
  "deliveries st [] = []"
| "deliveries st (Post_complete h ec n # fs) = (h, ec, n) # deliveries st fs"
| "deliveries st (Post_complete_status h # fs) = (h, st, 0) # deliveries st fs"
| "deliveries st (f # fs) = deliveries st fs"

subsection \<open>The owner of the bufferer: \<open>basic_buffered_tls_socket\<close>\<close>

text \<open>
  \<open>TLSStreamBufferer\<close> has a private constructor; the one object that creates and
  holds one is a \<open>basic_buffered_tls_socket\<close>, in its private member
  \<open>p_puller_\<close>. The model keeps this member and, of the TLS stream, whether its
  lowest layer is open and how many of the reads that were in flight when it was closed
  may still complete without error.
\<close>

record 'h basic_buffered_tls_socket =
  p_puller :: "'h TLSStreamBufferer"
  is_open :: bool
  in_flight_at_close :: nat

text \<open>
  The constructors that are given a stream: \<open>p_puller_(puller_type::create(...))\<close>.
\<close>

definition buffered_tls_socket :: "'h basic_buffered_tls_socket" where
  "buffered_tls_socket = \<lparr>p_puller = create, is_open = True, in_flight_at_close = 0\<rparr>"

text \<open>
  \<open>handshake\<close> and the completion of \<open>async_handshake\<close>: \<open>ec\<close> is the
  code that the handshake of the stream leaves; without error the pull is started.
\<close>

definition handshake :: "error_code \<Rightarrow> 'h basic_buffered_tls_socket \<Rightarrow> 'h basic_buffered_tls_socket" where
  "handshake ec b = (if ec = success then b\<lparr>p_puller := start_pulling (p_puller b)\<rparr> else b)"

text \<open>\<open>async_read_some\<close> of the socket forwards the call to the bufferer.\<close>

definition socket_async_read_some ::
  "nat \<Rightarrow> 'h \<Rightarrow> 'h basic_buffered_tls_socket \<Rightarrow> 'h basic_buffered_tls_socket" where
  "socket_async_read_some buffer_size handler b =
     b\<lparr>p_puller := async_read_some buffer_size handler (p_puller b)\<rparr>"

text \<open>
  \<open>socket_.get().lowest_layer().close(ec)\<close>: the reads in flight at the first close
  are remembered.
\<close>

definition lowest_layer_close :: "'h basic_buffered_tls_socket \<Rightarrow> 'h basic_buffered_tls_socket" where
  "lowest_layer_close b =
     b\<lparr>is_open := False,
        in_flight_at_close := (if is_open b then socket_reads (p_puller b)
                               else in_flight_at_close b)\<rparr>"

text \<open>
  \<open>close\<close>: the lowest layer is closed first, then the bufferer is cancelled. This
  and the \<open>operation_aborted\<close> branch of the read handler are the only calls of
  \<open>cancel\<close> in the sources.
\<close>

definition close :: "'h basic_buffered_tls_socket \<Rightarrow> 'h basic_buffered_tls_socket" where
  "close b = (let b1 = lowest_layer_close b in b1\<lparr>p_puller := cancel (p_puller b1)\<rparr>)"

text \<open>
  What can happen to a buffered TLS socket: its user calls \<open>handshake\<close> (which leaves
  some error code), \<open>async_read_some\<close> or \<open>close\<close>, the \<open>io_service\<close>
  runs the next posted handler, or a read of the socket completes. Closing the lowest layer
  cancels the reads in flight, but one that had completed before is still delivered with
  what it read; a read started on the closed socket completes with an error. So, once the
  socket is closed, no more reads complete without error than were in flight at the close.
  A closed socket is not opened again. Otherwise the model is free: a handshake may leave
  any code at any time, and any read in flight may be the one that completes.
\<close>

datatype 'h socket_event =
    Call_handshake error_code
  | Call_socket_async_read_some nat 'h
  | Call_close
  | Handler_runs
  | Socket_read_completes error_code nat

definition socket_possible :: "'h socket_event \<Rightarrow> 'h basic_buffered_tls_socket \<Rightarrow> bool" where
  "socket_possible e b =
     (case e of
        Handler_runs \<Rightarrow> possible Run_posted (p_puller b)
      | Socket_read_completes ec n \<Rightarrow>
          possible (Read_completes ec n) (p_puller b)
          \<and> (ec = success \<longrightarrow> is_open b \<or> 0 < in_flight_at_close b)
      | _ \<Rightarrow> True)"

definition socket_step ::
  "'h socket_event \<Rightarrow> 'h basic_buffered_tls_socket \<Rightarrow> 'h basic_buffered_tls_socket" where
  "socket_step e b =
     (case e of
        Call_handshake ec \<Rightarrow> handshake ec b
      | Call_socket_async_read_some n h \<Rightarrow> socket_async_read_some n h b
      | Call_close \<Rightarrow> close b
      | Handler_runs \<Rightarrow> b\<lparr>p_puller := step Run_posted (p_puller b)\<rparr>
      | Socket_read_completes ec n \<Rightarrow>
          b\<lparr>p_puller := step (Read_completes ec n) (p_puller b),
             in_flight_at_close := (if \<not> is_open b \<and> ec = success
                                    then in_flight_at_close b - 1
                                    else in_flight_at_close b)\<rparr>)"

fun socket_execute ::
  "'h socket_event list \<Rightarrow> 'h basic_buffered_tls_socket \<Rightarrow> 'h basic_buffered_tls_socket option" where
  "socket_execute [] b = Some b"
| "socket_execute (e # es) b =
     (if socket_possible e b then socket_execute es (socket_step e b) else None)"

subsection \<open>Notions used in the proofs\<close>

text \<open>
  The first statement of the success branch of \<open>handle_data_n_ops\<close>, and the body of
  its \<open>if (!op_queue_.empty() && data_queue_.size())\<close>.
\<close>

definition maybe_start :: "'h TLSStreamBufferer \<Rightarrow> 'h TLSStreamBufferer" where
  "maybe_start s = (if data_queue s < lower_queue_size_bound \<and> \<not> pulling s then start_pulling s else s)"

definition serve :: "'h pending_read \<Rightarrow> 'h pending_read list \<Rightarrow> 'h TLSStreamBufferer \<Rightarrow> 'h TLSStreamBufferer" where
  "serve op ops s1 = post (Post_complete (op_handler op) success (fill_buffer op (data_queue s1)))
                       (s1\<lparr>op_queue := ops,
                           data_queue := data_queue s1 - fill_buffer op (data_queue s1)\<rparr>)"

text \<open>
  At most one pull is under way, counted as reads in flight plus posted
  \<open>async_pull_packets\<close>, and only while the flag is set; a read in flight was started
  below the higher bound.
\<close>

definition one_pull :: "'h TLSStreamBufferer \<Rightarrow> bool" where
  "one_pull s =
     (socket_reads s + count_list (io_service s) Post_async_pull_packets \<le> (if pulling s then 1 else 0)
      \<and> (socket_reads s = 0 \<or> data_queue s < higher_queue_size_bound)
      \<and> data_queue s < higher_queue_size_bound + receive_buffer_size)"

text \<open>
  While the socket is open at most one pull is under way; once it is closed the data queue
  and what the reads in flight at the close may still deliver fit in one receive buffer.
\<close>

definition bounded_pull :: "'h basic_buffered_tls_socket \<Rightarrow> bool" where
  "bounded_pull b =
     (if is_open b then one_pull (p_puller b)
      else data_queue (p_puller b) + in_flight_at_close b * receive_buffer_size
             \<le> receive_buffer_size)"

section \<open>Link layers: endpoints from the parameter stack\<close>













section \<open>Admin service: properties of the handler table\<close>

subsection \<open>What the serial loop returns\<close>

text \<open>
  Entered with \<open>s\<close>, the loop returns the first free key \<open>t + !!is_server_\<close> with
  \<open>s \<le> t < 0xFFFFFFFF\<close>, registered with the empty lambda, or 0 with the table
  untouched when all these keys are taken.
\<close>

lemma GetAvailableSerial_from_cases:
  "GetAvailableSerial_from s a = (r, a') \<Longrightarrow>
     (\<exists>t. s \<le> t \<and> t < 0xFFFFFFFF \<and> r = t + of_bool (is_server a) \<and> command_handlers a r = None
          \<and> a' = a\<lparr>command_handlers := (command_handlers a)(r \<mapsto> EmptyLambda)\<rparr>
          \<and> (\<forall>u. s \<le> u \<and> u < t \<longrightarrow> command_handlers a (u + of_bool (is_server a)) \<noteq> None))
   \<or> (r = 0 \<and> a' = a \<and> (\<forall>u. s \<le> u \<and> u < 0xFFFFFFFF \<longrightarrow> command_handlers a (u + of_bool (is_server a)) \<noteq> None))"
proof (induction s a rule: GetAvailableSerial_from.induct)
  case (1 serial a)
  show ?case
  proof (cases "serial < 0xFFFFFFFF")
    case False
    with "1.prems" show ?thesis by auto
  next
    case lt: True
    show ?thesis
    proof (cases "command_handlers a (serial + of_bool (is_server a)) = None")
      case True
      from "1.prems" have sel: "r = fst (GetAvailableSerial_from serial a)"
        "a' = snd (GetAvailableSerial_from serial a)" by simp_all
      from True lt have r: "r = serial + of_bool (is_server a)"
        unfolding sel by simp
      from True lt have "a' = a\<lparr>command_handlers :=
          (command_handlers a)(serial + of_bool (is_server a) \<mapsto> EmptyLambda)\<rparr>"
        unfolding sel by simp
      then have a': "a' = a\<lparr>command_handlers := (command_handlers a)(r \<mapsto> EmptyLambda)\<rparr>"
        unfolding r .
      from True r have free: "command_handlers a r = None" by simp
      show ?thesis
        by (intro disjI1 exI[of _ serial] conjI order_refl lt r free a') (meson leD)
    next
      case False
      with lt "1.prems" have rec: "GetAvailableSerial_from (serial + 1) a = (r, a')" by simp
      from lt have nowrap: "serial \<le> serial + 1"
        by (simp add: word_less_nat_alt word_le_nat_alt unat_word_ariths)
      have step: "\<And>u. serial \<le> u \<Longrightarrow> u = serial \<or> serial + 1 \<le> u"
        using lt by (metis inc_le order_le_less)
      from "1.IH"[OF lt False rec] show ?thesis
      proof
        assume "\<exists>t. serial + 1 \<le> t \<and> t < 0xFFFFFFFF \<and> r = t + of_bool (is_server a) \<and> command_handlers a r = None
          \<and> a' = a\<lparr>command_handlers := (command_handlers a)(r \<mapsto> EmptyLambda)\<rparr>
          \<and> (\<forall>u. serial + 1 \<le> u \<and> u < t \<longrightarrow> command_handlers a (u + of_bool (is_server a)) \<noteq> None)"
        then obtain t where t: "serial + 1 \<le> t" "t < 0xFFFFFFFF" "r = t + of_bool (is_server a)" "command_handlers a r = None"
          "a' = a\<lparr>command_handlers := (command_handlers a)(r \<mapsto> EmptyLambda)\<rparr>"
          "\<forall>u. serial + 1 \<le> u \<and> u < t \<longrightarrow> command_handlers a (u + of_bool (is_server a)) \<noteq> None" by blast
        have "serial \<le> t" using t(1) nowrap by simp
        moreover have "\<forall>u. serial \<le> u \<and> u < t \<longrightarrow> command_handlers a (u + of_bool (is_server a)) \<noteq> None"
          using t(6) False step by blast
        ultimately show ?thesis using t by blast
      next
        assume z: "r = 0 \<and> a' = a \<and> (\<forall>u. serial + 1 \<le> u \<and> u < 0xFFFFFFFF \<longrightarrow> command_handlers a (u + of_bool (is_server a)) \<noteq> None)"
        then have "\<forall>u. serial \<le> u \<and> u < 0xFFFFFFFF \<longrightarrow> command_handlers a (u + of_bool (is_server a)) \<noteq> None"
          using False step by blast
        with z show ?thesis by blast
      qed
    qed
  qed
qed

lemma candidate_nonzero:
  fixes t :: uint32_t
  assumes "3 \<le> t" "t < 0xFFFFFFFF"
  shows "t + of_bool b \<noteq> 0"
proof -
  from assms have "3 \<le> unat t" "unat t < 4294967295"
    by (simp_all add: word_le_nat_alt word_less_nat_alt)
  then have "unat (t + of_bool b) = unat t + of_bool b"
    by (cases b) (simp_all add: unat_word_ariths)
  with \<open>3 \<le> unat t\<close> have "unat (t + of_bool b) \<noteq> 0" by simp
  then show ?thesis by (metis unat_0)
qed

lemma GetAvailableSerial_cases:
  assumes "GetAvailableSerial a = (r, a')"
  shows "(r \<noteq> 0 \<and> command_handlers a r = None
           \<and> a' = a\<lparr>command_handlers := (command_handlers a)(r \<mapsto> EmptyLambda)\<rparr>)
       \<or> (r = 0 \<and> a' = a
           \<and> (\<forall>u. 3 \<le> u \<and> u < 0xFFFFFFFF \<longrightarrow> command_handlers a (u + of_bool (is_server a)) \<noteq> None))"
proof -
  note c = GetAvailableSerial_from_cases[OF assms[unfolded GetAvailableSerial_def]]
  show ?thesis
  proof (cases "r = 0")
    case True
    with c candidate_nonzero show ?thesis by metis
  next
    case False
    with c show ?thesis by blast
  qed
qed

subsection \<open>Serial allocation on the two sides\<close>

text \<open>
  Claim C1 (client and server serials are disjoint, one side even and the other odd).
  The loop steps by one on both sides, so a client takes 3, 4, 5, ... and a server
  4, 5, 6, ...: starting from empty tables, the second serial of a client and the first
  serial of a server are both 4, and the client has issued an odd and an even serial.
\<close>

theorem GetAvailableSerial_client_server_collide:
  "fst (GetAvailableSerial \<lparr>is_server = False, command_serial_received = 0,
          command_handlers = Map.empty, posted = ([] :: unit CommandHandler list)\<rparr>) = 3
   \<and> fst (GetAvailableSerial (snd (GetAvailableSerial \<lparr>is_server = False,
          command_serial_received = 0, command_handlers = Map.empty,
          posted = ([] :: unit CommandHandler list)\<rparr>))) = 4
   \<and> fst (GetAvailableSerial \<lparr>is_server = True, command_serial_received = 0,
          command_handlers = Map.empty, posted = ([] :: unit CommandHandler list)\<rparr>) = 4"
  by (simp add: GetAvailableSerial_def)

subsection \<open>Executing a reply handler\<close>

lemma ExecuteAndRemoveCommandHandler_argument_unused:
  "ExecuteAndRemoveCommandHandler serial a = ExecuteAndRemoveCommandHandler serial' a"
  by (simp add: ExecuteAndRemoveCommandHandler_def)

text \<open>
  Claim C3 (the handler registered under the serial of the reply that arrived is executed
  once and erased). When the received serial is \<open>s\<close> and \<open>h\<close> is registered
  under \<open>s\<close>, the call posts \<open>h\<close> once and erases exactly the entry \<open>s\<close>. A
  further call, whatever its argument, changes nothing while the received serial stays
  \<open>s\<close>, and so does a call for any later reply with serial \<open>s\<close> as long as nothing
  is registered under \<open>s\<close>: \<open>h\<close> is not posted again.
\<close>

theorem ExecuteAndRemoveCommandHandler_once:
  fixes a :: "'h Admin"
  assumes "command_handlers a s = Some h" and "command_serial_received a = s"
  shows "posted (ExecuteAndRemoveCommandHandler s a) = posted a @ [h]
       \<and> command_handlers (ExecuteAndRemoveCommandHandler s a) = (command_handlers a)(s := None)
       \<and> (\<forall>s'. ExecuteAndRemoveCommandHandler s' (ExecuteAndRemoveCommandHandler s a)
                = ExecuteAndRemoveCommandHandler s a)
       \<and> (\<forall>(b :: 'h Admin) s'. command_serial_received b = s \<and> command_handlers b s = None
                \<longrightarrow> ExecuteAndRemoveCommandHandler s' b = b)"
  using assms by (simp add: ExecuteAndRemoveCommandHandler_def EraseHandler_def)

theorem ExecuteAndRemoveCommandHandler_once_witness:
  "command_handlers (InsertHandler 3 (Handler ''h'') \<lparr>is_server = False,
       command_serial_received = 3, command_handlers = Map.empty, posted = []\<rparr>) 3
     = Some (Handler ''h'')
   \<and> posted (ExecuteAndRemoveCommandHandler 3 (InsertHandler 3 (Handler ''h'')
       \<lparr>is_server = False, command_serial_received = 3, command_handlers = Map.empty,
        posted = []\<rparr>)) = [Handler ''h'']
   \<and> command_handlers (ExecuteAndRemoveCommandHandler 3 (InsertHandler 3 (Handler ''h'')
       \<lparr>is_server = False, command_serial_received = 3, command_handlers = Map.empty,
        posted = []\<rparr>)) 3 = None"
proof -
  let ?a = "InsertHandler 3 (Handler ''h'') \<lparr>is_server = False,
       command_serial_received = 3, command_handlers = Map.empty, posted = []\<rparr>"
  have h: "command_handlers ?a 3 = Some (Handler ''h'')"
    by (simp add: InsertHandler_def)
  have r: "command_serial_received ?a = 3"
    by (simp add: InsertHandler_def)
  from ExecuteAndRemoveCommandHandler_once [OF h r] h show ?thesis
    by (simp add: InsertHandler_def)
qed

subsection \<open>A serial is free when it is issued\<close>

text \<open>
  Claim C4, as stated (every call returns a serial without a registered handler and
  registers it), fails when no key of the loop's range is free. In the table below a
  client has handlers under every key from 3 to \<open>0xFFFFFFFE\<close> and under 0, the
  serial that \<open>Command\<close> was given, and registered its handler under, when the range
  was first exhausted: the call returns 0 again, although 0 has a handler, and registers
  nothing.
\<close>

theorem GetAvailableSerial_full_table_counterexample:
  "GetAvailableSerial \<lparr>is_server = False, command_serial_received = 0,
        command_handlers = (\<lambda>k. if k = 0 \<or> 3 \<le> k \<and> k < 0xFFFFFFFF
                                  then Some (Handler ''h'') else None), posted = []\<rparr>
   = (0, \<lparr>is_server = False, command_serial_received = 0,
        command_handlers = (\<lambda>k. if k = 0 \<or> 3 \<le> k \<and> k < 0xFFFFFFFF
                                  then Some (Handler ''h'') else None), posted = []\<rparr>)
   \<and> (\<lambda>k :: uint32_t. if k = 0 \<or> 3 \<le> k \<and> k < 0xFFFFFFFF
                         then Some (Handler ''h'') else None) 0 \<noteq> None"
proof -
  let ?a = "\<lparr>is_server = False, command_serial_received = 0,
        command_handlers = (\<lambda>k. if k = 0 \<or> 3 \<le> k \<and> k < 0xFFFFFFFF
                                  then Some (Handler ''h'') else None), posted = []\<rparr>"
  obtain r a' where ra: "GetAvailableSerial ?a = (r, a')"
    by (cases "GetAvailableSerial ?a")
  from GetAvailableSerial_from_cases [OF ra [unfolded GetAvailableSerial_def]]
  have "r = 0 \<and> a' = ?a" by auto
  with ra show ?thesis by simp
qed

text \<open>
  Claim C4, amended. A call either returns a non-zero serial that has no handler at the
  time of the call and registers it with the empty lambda, or, when every key
  \<open>u + !!is_server_\<close> with \<open>3 \<le> u < 0xFFFFFFFF\<close> is registered, returns 0 and
  leaves the table as it was. Hence a non-zero serial is not returned by any call made
  while a handler is registered under it.
\<close>

theorem GetAvailableSerial_fresh:
  fixes a :: "'h Admin"
  assumes "GetAvailableSerial a = (r, a')"
  shows "((r \<noteq> 0 \<and> command_handlers a r = None
           \<and> a' = a\<lparr>command_handlers := (command_handlers a)(r \<mapsto> EmptyLambda)\<rparr>)
        \<or> (r = 0 \<and> a' = a
           \<and> (\<forall>u. 3 \<le> u \<and> u < 0xFFFFFFFF
                  \<longrightarrow> command_handlers a (u + of_bool (is_server a)) \<noteq> None)))
      \<and> (\<forall>b :: 'h Admin. r \<noteq> 0 \<and> command_handlers b r \<noteq> None
                  \<longrightarrow> fst (GetAvailableSerial b) \<noteq> r)"
proof
  show "(r \<noteq> 0 \<and> command_handlers a r = None
           \<and> a' = a\<lparr>command_handlers := (command_handlers a)(r \<mapsto> EmptyLambda)\<rparr>)
        \<or> (r = 0 \<and> a' = a
           \<and> (\<forall>u. 3 \<le> u \<and> u < 0xFFFFFFFF
                  \<longrightarrow> command_handlers a (u + of_bool (is_server a)) \<noteq> None))"
    by (rule GetAvailableSerial_cases [OF assms])
next
  show "\<forall>b :: 'h Admin. r \<noteq> 0 \<and> command_handlers b r \<noteq> None
                  \<longrightarrow> fst (GetAvailableSerial b) \<noteq> r"
  proof (intro allI impI notI)
    fix b :: "'h Admin"
    assume h: "r \<noteq> 0 \<and> command_handlers b r \<noteq> None"
      and eq: "fst (GetAvailableSerial b) = r"
    obtain b' where "GetAvailableSerial b = (r, b')"
      using eq by (cases "GetAvailableSerial b") simp
    from GetAvailableSerial_cases [OF this] h show False by blast
  qed
qed

theorem GetAvailableSerial_fresh_witness:
  "GetAvailableSerial \<lparr>is_server = False, command_serial_received = 0,
        command_handlers = [3 \<mapsto> Handler ''h''], posted = []\<rparr>
     = (4, \<lparr>is_server = False, command_serial_received = 0,
        command_handlers = [3 \<mapsto> Handler ''h'', 4 \<mapsto> EmptyLambda], posted = []\<rparr>)
   \<and> [3 \<mapsto> Handler ''h''] (4 :: uint32_t) = None
   \<and> fst (GetAvailableSerial \<lparr>is_server = False, command_serial_received = 0,
        command_handlers = [3 \<mapsto> Handler ''h'', 4 \<mapsto> EmptyLambda], posted = []\<rparr>) \<noteq> 4"
proof -
  let ?a = "\<lparr>is_server = False, command_serial_received = 0,
        command_handlers = [3 \<mapsto> Handler ''h''], posted = []\<rparr>"
  let ?a' = "\<lparr>is_server = False, command_serial_received = 0,
        command_handlers = [3 \<mapsto> Handler ''h'', 4 \<mapsto> EmptyLambda], posted = []\<rparr>"
  have h: "GetAvailableSerial ?a = (4, ?a')"
    by (simp add: GetAvailableSerial_def)
  from GetAvailableSerial_fresh [OF h] h show ?thesis
    by simp
qed

section \<open>Proxy configuration: when a proxy counts as set\<close>

text \<open>
  Claim C10 (a proxy is set only when fully addressed). \<open>HttpProxy::IsSet\<close> holds
  exactly when host and port are both non-empty; \<open>SocksProxy::IsSet\<close> exactly when the
  version is known and host and port are both non-empty. The other fields of an HTTP proxy
  play no part.
\<close>

theorem IsSet_iff_addressed:
  "HttpProxy_IsSet hp = (HttpProxy.host hp \<noteq> [] \<and> HttpProxy.port hp \<noteq> [])
   \<and> SocksProxy_IsSet sp
        = (version sp \<noteq> kVUnknown \<and> SocksProxy.host sp \<noteq> [] \<and> SocksProxy.port sp \<noteq> [])
   \<and> HttpProxy_IsSet (hp\<lparr>user_agent := ua, username := un, domain := d, password := pw,
                           reuse_ntlm := rn, reuse_kerb := rk\<rparr>) = HttpProxy_IsSet hp"
  by (simp add: HttpProxy_IsSet_def SocksProxy_IsSet_def)

section \<open>Buffered TLS stream: properties of \<open>TLSStreamBufferer\<close>\<close>

declare handle_data_n_ops.simps [simp del] cancel_ops.simps [simp del]

lemmas eval_defs = possible_def step_def create_def start_pulling_def post_def run_posted_def
  async_pull_packets_def cancel_def cancel_ops.simps higher_queue_size_bound_def pull_handler_def
  handle_data_n_ops.simps receive_buffer_size_def lower_queue_size_bound_def async_read_some_def
  fill_buffer_def Let_def

subsection \<open>The two loops in closed form\<close>

lemma cancel_ops_eq:
  "cancel_ops s = s\<lparr>op_queue := [],
      io_service := io_service s @ map (\<lambda>op. Post_complete (op_handler op) operation_aborted 0) (op_queue s)\<rparr>"
proof (induction s rule: cancel_ops.induct)
  case (1 s)
  show ?case
  proof (cases "op_queue s")
    case Nil
    then show ?thesis by (simp add: cancel_ops.simps [of s])
  next
    case (Cons op ops)
    with "1.IH" [OF Cons] show ?thesis
      by (simp add: cancel_ops.simps [of s] post_def)
  qed
qed

lemma handle_data_n_ops_error:
  "status s \<noteq> success \<Longrightarrow>
   handle_data_n_ops s = s\<lparr>op_queue := [],
      io_service := io_service s @ map (\<lambda>op. Post_complete_status (op_handler op)) (op_queue s)\<rparr>"
proof (induction "op_queue s" arbitrary: s)
  case Nil
  then show ?case by (simp add: handle_data_n_ops.simps [of s])
next
  case (Cons op ops)
  let ?s' = "post (Post_complete_status (op_handler op)) (s\<lparr>op_queue := ops\<rparr>)"
  have q: "op_queue s = op # ops" using Cons.hyps(2) by simp
  have "handle_data_n_ops s = handle_data_n_ops ?s'"
    using Cons.prems q by (simp add: handle_data_n_ops.simps [of s])
  also have "\<dots> = ?s'\<lparr>op_queue := [],
      io_service := io_service ?s' @ map (\<lambda>op. Post_complete_status (op_handler op)) (op_queue ?s')\<rparr>"
    using Cons.prems by (intro Cons.hyps(1)) (simp_all add: post_def)
  also have "\<dots> = s\<lparr>op_queue := [],
      io_service := io_service s @ map (\<lambda>op. Post_complete_status (op_handler op)) (op_queue s)\<rparr>"
    by (simp add: post_def q)
  finally show ?case .
qed

lemma handle_ok_idle:
  "status s = success \<Longrightarrow> op_queue s = [] \<or> data_queue s = 0 \<Longrightarrow> handle_data_n_ops s = maybe_start s"
  by (cases "op_queue s")
     (auto simp: handle_data_n_ops.simps [of s] maybe_start_def start_pulling_def post_def Let_def)

lemma handle_ok_serve:
  "status s = success \<Longrightarrow> op_queue s = op # ops \<Longrightarrow> data_queue s \<noteq> 0 \<Longrightarrow>
   handle_data_n_ops s = handle_data_n_ops (serve op ops (maybe_start s))"
  by (auto simp: handle_data_n_ops.simps [of s] maybe_start_def serve_def start_pulling_def post_def Let_def)

text \<open>
  What \<open>handle_data_n_ops\<close> leaves alone, and what it does to the flag: it never
  clears it, and sets it exactly when it ends below the lower bound without an error.
\<close>

lemma handle_props:
  "socket_reads (handle_data_n_ops s) = socket_reads s
   \<and> status (handle_data_n_ops s) = status s
   \<and> completed (handle_data_n_ops s) = completed s
   \<and> data_queue (handle_data_n_ops s) \<le> data_queue s
   \<and> (pulling s \<longrightarrow> pulling (handle_data_n_ops s))
   \<and> count_list (io_service (handle_data_n_ops s)) Post_async_pull_packets
        = count_list (io_service s) Post_async_pull_packets
          + of_bool (\<not> pulling s \<and> pulling (handle_data_n_ops s))
   \<and> (\<not> pulling s \<longrightarrow> pulling (handle_data_n_ops s)
          = (status s = success \<and> data_queue (handle_data_n_ops s) < lower_queue_size_bound))"
proof (induction "length (op_queue s)" arbitrary: s rule: less_induct)
  case less
  show ?case
  proof (cases "status s = success")
    case False
    have "count_list (map (\<lambda>op. Post_complete_status (op_handler op)) q) Post_async_pull_packets = 0" for q :: "'a pending_read list"
      by (induction q) simp_all
    with False show ?thesis
      by (simp add: handle_data_n_ops_error)
  next
    case ok: True
    show ?thesis
    proof (cases "op_queue s = [] \<or> data_queue s = 0")
      case True
      with ok show ?thesis
        by (auto simp: handle_ok_idle maybe_start_def start_pulling_def post_def)
    next
      case False
      then obtain op ops where q: "op_queue s = op # ops" and d: "data_queue s \<noteq> 0"
        by (cases "op_queue s") auto
      let ?s' = "serve op ops (maybe_start s)"
      have eq: "handle_data_n_ops s = handle_data_n_ops ?s'"
        by (rule handle_ok_serve [OF ok q d])
      have len: "length (op_queue ?s') < length (op_queue s)"
        by (simp add: serve_def post_def q)
      note IH = less [OF len]
      have s': "socket_reads ?s' = socket_reads s" "status ?s' = status s"
        "completed ?s' = completed s" "data_queue ?s' \<le> data_queue s"
        "pulling s \<Longrightarrow> pulling ?s'"
        "pulling ?s' = (pulling s \<or> data_queue s < lower_queue_size_bound)"
        "count_list (io_service ?s') Post_async_pull_packets
           = count_list (io_service s) Post_async_pull_packets + of_bool (\<not> pulling s \<and> pulling ?s')"
        by (auto simp: serve_def maybe_start_def start_pulling_def post_def)
      show ?thesis
        unfolding eq using IH s' ok by auto
    qed
  qed
qed

lemma status_handle [simp]: "status (handle_data_n_ops s) = status s"
  using handle_props [of s] by simp

lemma pulling_handle_paused:
  "\<not> pulling s \<Longrightarrow>
   pulling (handle_data_n_ops s)
     = (status s = success \<and> data_queue (handle_data_n_ops s) < lower_queue_size_bound)"
  using handle_props [of s] by simp

lemma pull_handler_error:
  assumes "ec \<noteq> success" "ec \<noteq> operation_aborted"
  shows "pull_handler ec len s = s\<lparr>data_queue := 0, status := ec, op_queue := [],
           io_service := io_service s @ map (\<lambda>op. Post_complete_status (op_handler op)) (op_queue s)\<rparr>"
  using assms by (simp add: pull_handler_def handle_data_n_ops_error)

lemma status_step:
  "status (step e s) = (case e of Read_completes ec n \<Rightarrow>
       if ec = success \<or> ec = operation_aborted then status s else ec | _ \<Rightarrow> status s)"
proof (cases e)
  case Run_posted
  show ?thesis
  proof (cases "io_service s")
    case Nil
    with Run_posted show ?thesis by (simp add: step_def)
  next
    case (Cons f fs)
    with Run_posted show ?thesis
      by (cases f) (simp_all add: step_def run_posted_def async_pull_packets_def)
  qed
next
  case (Read_completes ec n)
  then show ?thesis
    by (simp add: step_def pull_handler_def cancel_def cancel_ops_eq async_pull_packets_def Let_def)
qed (simp_all add: step_def start_pulling_def post_def async_read_some_def cancel_def cancel_ops_eq)

subsection \<open>Executions\<close>

lemma execute_append:
  "execute (xs @ ys) s = (case execute xs s of None \<Rightarrow> None | Some s' \<Rightarrow> execute ys s')"
  by (induction xs arbitrary: s) simp_all

text \<open>Running posted completions delivers them in posting order.\<close>

lemma run_completions:
  "io_service s = map (\<lambda>(h, ec, n). Post_complete h ec n) cs @ rest \<Longrightarrow>
   execute (replicate (length cs) Run_posted) s
     = Some (s\<lparr>io_service := rest, completed := completed s @ cs\<rparr>)"
proof (induction cs arbitrary: s)
  case Nil
  then show ?case by simp
next
  case (Cons c cs)
  obtain h ec n where c: "c = (h, ec, n)" by (cases c)
  let ?t = "s\<lparr>io_service := map (\<lambda>(h, ec, n). Post_complete h ec n) cs @ rest,
               completed := completed s @ [c]\<rparr>"
  have p: "possible Run_posted s" using Cons.prems by (simp add: possible_def)
  have st: "step Run_posted s = ?t"
    using Cons.prems by (simp add: step_def run_posted_def c)
  have "execute (replicate (length cs) Run_posted) ?t
     = Some (?t\<lparr>io_service := rest, completed := completed ?t @ cs\<rparr>)"
    by (rule Cons.IH) simp
  with p st show ?case by simp
qed

text \<open>
  While the flag is set and nobody waits for data, a read that completes below the higher
  bound only grows the data queue: the handler starts the next read at once.
\<close>

lemma read_completes_refill:
  assumes "status s = success" "pulling s" "op_queue s = []" "0 < socket_reads s"
    "n \<le> receive_buffer_size" "data_queue s + n < higher_queue_size_bound"
  shows "step (Read_completes success n) s = s\<lparr>data_queue := data_queue s + n\<rparr>"
  using assms
  by (simp add: step_def pull_handler_def async_pull_packets_def handle_ok_idle maybe_start_def Let_def)

lemma refill_many:
  assumes "status s = success" "pulling s" "op_queue s = []" "0 < socket_reads s"
    "data_queue s + k * receive_buffer_size < higher_queue_size_bound"
  shows "execute (replicate k (Read_completes success receive_buffer_size)) s
           = Some (s\<lparr>data_queue := data_queue s + k * receive_buffer_size\<rparr>)"
  using assms
proof (induction k arbitrary: s)
  case 0
  then show ?case by simp
next
  case (Suc k)
  let ?s' = "s\<lparr>data_queue := data_queue s + receive_buffer_size\<rparr>"
  have p: "possible (Read_completes success receive_buffer_size) s"
    using Suc.prems by (simp add: possible_def)
  have st: "step (Read_completes success receive_buffer_size) s = ?s'"
    using Suc.prems by (intro read_completes_refill) simp_all
  have "execute (replicate k (Read_completes success receive_buffer_size)) ?s'
           = Some (?s'\<lparr>data_queue := data_queue ?s' + k * receive_buffer_size\<rparr>)"
    using Suc.prems by (intro Suc.IH) (simp_all add: algebra_simps)
  with p st show ?case by (simp add: algebra_simps)
qed

subsection \<open>A read into an empty buffer\<close>

text \<open>
  Claim C9 (\<open>async_read_some\<close> with buffers of total size 0). The call posts the
  completion of the handler with no error and 0 bytes and changes nothing else: the
  operation queue, the status and the data queue are as before. When the
  \<open>io_service\<close> runs that completion the caller gets \<open>(success, 0)\<close>, whatever the
  status and the buffered data are.
\<close>

theorem async_read_some_empty_buffer:
  "async_read_some 0 h s = s\<lparr>io_service := io_service s @ [Post_complete h success 0]\<rparr>
   \<and> step Run_posted (t\<lparr>io_service := Post_complete h success 0 # fs\<rparr>)
       = t\<lparr>io_service := fs, completed := completed t @ [(h, success, 0)]\<rparr>"
  by (simp add: async_read_some_def post_def step_def run_posted_def)

theorem async_read_some_empty_buffer_witness:
  "execute [Call_async_read_some 0 (), Run_posted]
     \<lparr>status = other_error 104, data_queue = 7, op_queue = [Op 5 ()], pulling = True,
      io_service = [], socket_reads = 0, completed = []\<rparr>
   = Some \<lparr>status = other_error 104, data_queue = 7, op_queue = [Op 5 ()], pulling = True,
      io_service = [], socket_reads = 0, completed = [((), success, 0)]\<rparr>"
  using async_read_some_empty_buffer [where h = "()" and s = "\<lparr>status = other_error 104, data_queue = 7, op_queue = [Op 5 ()], pulling = True,
      io_service = [], socket_reads = 0, completed = []\<rparr>"
      and t = "\<lparr>status = other_error 104, data_queue = 7, op_queue = [Op 5 ()], pulling = True,
      io_service = [], socket_reads = 0, completed = []\<rparr>" and fs = "[]"]
  by (simp add: possible_def step_def)

subsection \<open>\<open>cancel\<close>\<close>

text \<open>
  Claim C7, as stated, ends with: no further pull reads are started by the cancelled pull
  loop. Nothing in the pull loop reads the flag that \<open>cancel\<close> clears. With a read in
  flight when \<open>cancel\<close> is called, the completion of that read starts the next read
  (and \<open>handle_data_n_ops\<close> sets the flag again and posts one more
  \<open>async_pull_packets\<close>); with \<open>async_pull_packets\<close> posted when \<open>cancel\<close> is
  called, it starts a read when it runs.
\<close>

theorem cancel_leaves_pull_loop_running:
  "execute [Call_start_pulling, Run_posted, Call_cancel] (create :: unit TLSStreamBufferer)
     = Some \<lparr>status = success, data_queue = 0, op_queue = [], pulling = False,
              io_service = [], socket_reads = 1, completed = []\<rparr>
   \<and> execute [Call_start_pulling, Run_posted, Call_cancel, Read_completes success 100]
       (create :: unit TLSStreamBufferer)
     = Some \<lparr>status = success, data_queue = 100, op_queue = [], pulling = True,
              io_service = [Post_async_pull_packets], socket_reads = 1, completed = []\<rparr>
   \<and> execute [Call_start_pulling, Call_cancel, Run_posted] (create :: unit TLSStreamBufferer)
     = Some \<lparr>status = success, data_queue = 0, op_queue = [], pulling = False,
              io_service = [], socket_reads = 1, completed = []\<rparr>"
  by (simp add: eval_defs)

text \<open>
  Claim C7, amended: \<open>cancel\<close> empties the data queue, pops every pending operation
  and posts its completion with \<open>operation_aborted\<close> and 0 bytes, in queue order, and
  clears the pulling flag. It changes nothing else. With nothing posted before, running
  what \<open>cancel\<close> has posted calls the handler of every operation that was pending
  with \<open>operation_aborted\<close> and 0 bytes. What a pull already under way does next is
  not part of the statement.
\<close>

theorem cancel_effect:
  "cancel s = s\<lparr>pulling := False, data_queue := 0, op_queue := [],
       io_service := io_service s
          @ map (\<lambda>op. Post_complete (op_handler op) operation_aborted 0) (op_queue s)\<rparr>
   \<and> (io_service s = [] \<longrightarrow>
        execute (replicate (length (op_queue s)) Run_posted) (cancel s)
          = Some (s\<lparr>pulling := False, data_queue := 0, op_queue := [],
                    completed := completed s
                       @ map (\<lambda>op. (op_handler op, operation_aborted, 0)) (op_queue s)\<rparr>))"
proof (intro conjI impI)
  show c: "cancel s = s\<lparr>pulling := False, data_queue := 0, op_queue := [],
       io_service := io_service s
          @ map (\<lambda>op. Post_complete (op_handler op) operation_aborted 0) (op_queue s)\<rparr>"
    by (simp add: cancel_def cancel_ops_eq)
  assume e: "io_service s = []"
  have "io_service (cancel s)
      = map (\<lambda>(h, ec, n). Post_complete h ec n)
          (map (\<lambda>op. (op_handler op, operation_aborted, 0)) (op_queue s)) @ []"
    by (simp add: c e comp_def)
  from run_completions [OF this] e
  show "execute (replicate (length (op_queue s)) Run_posted) (cancel s)
          = Some (s\<lparr>pulling := False, data_queue := 0, op_queue := [],
                    completed := completed s
                       @ map (\<lambda>op. (op_handler op, operation_aborted, 0)) (op_queue s)\<rparr>)"
    by (simp add: c)
qed

theorem cancel_effect_witness:
  "execute [Run_posted, Run_posted]
     (cancel \<lparr>status = success, data_queue = 7, op_queue = [Op 5 ''a'', Op 6 ''b''],
              pulling = True, io_service = [], socket_reads = 1, completed = []\<rparr>)
   = Some \<lparr>status = success, data_queue = 0, op_queue = [], pulling = False,
            io_service = [], socket_reads = 1,
            completed = [(''a'', operation_aborted, 0), (''b'', operation_aborted, 0)]\<rparr>"
  using cancel_effect [of "\<lparr>status = success, data_queue = 7,
              op_queue = [Op 5 ''a'', Op 6 ''b''],
              pulling = True, io_service = [], socket_reads = 1, completed = []\<rparr>"]
  by (simp add: possible_def step_def run_posted_def)

subsection \<open>After a read error\<close>

lemma deliveries_append: "deliveries st (fs @ gs) = deliveries st fs @ deliveries st gs"
  by (induction st fs rule: deliveries.induct) simp_all

lemma deliveries_status:
  "deliveries st (map (\<lambda>op. Post_complete_status (op_handler op)) q) = map (\<lambda>op. (op_handler op, st, 0)) q"
  by (induction q) simp_all

text \<open>
  With an error saved, running everything that is posted leaves nothing posted, and, when
  \<open>handle_data_n_ops\<close> is among the posted handlers, nothing pending: the pending
  operations are completed, after everything posted before, with the saved error and 0
  bytes.
\<close>

lemma run_all_errored:
  assumes "status s \<noteq> success"
    and "k = length (io_service s)
             + (if Post_handle_data_n_ops \<in> set (io_service s) then length (op_queue s) else 0)"
  shows "\<exists>s'. execute (replicate k Run_posted) s = Some s'
           \<and> io_service s' = [] \<and> status s' = status s
           \<and> op_queue s' = (if Post_handle_data_n_ops \<in> set (io_service s) then [] else op_queue s)
           \<and> completed s' = completed s @ deliveries (status s) (io_service s)
                 @ (if Post_handle_data_n_ops \<in> set (io_service s)
                    then map (\<lambda>op. (op_handler op, status s, 0)) (op_queue s) else [])"
  using assms
proof (induction k arbitrary: s)
  case 0
  then show ?case by (simp split: if_splits)
next
  case (Suc k)
  from Suc.prems(2) obtain f fs where q: "io_service s = f # fs"
    by (cases "io_service s") (auto split: if_splits)
  have p: "possible Run_posted s" by (simp add: possible_def q)
  let ?t = "step Run_posted s"
  have t: "?t = run_posted f (s\<lparr>io_service := fs\<rparr>)" by (simp add: step_def q)
  have ex: "execute (replicate (Suc k) Run_posted) s = execute (replicate k Run_posted) ?t"
    using p by simp
  have t': "status ?t = status s
      \<and> io_service ?t = fs @ (if f = Post_handle_data_n_ops
            then map (\<lambda>op. Post_complete_status (op_handler op)) (op_queue s) else [])
      \<and> op_queue ?t = (if f = Post_handle_data_n_ops then [] else op_queue s)
      \<and> completed ?t = completed s @ deliveries (status s) [f]"
    unfolding t using Suc.prems(1)
    by (cases f) (simp_all add: run_posted_def async_pull_packets_def handle_data_n_ops_error)
  have st: "status ?t \<noteq> success" using t' Suc.prems(1) by simp
  have kk: "k = length (io_service ?t)
             + (if Post_handle_data_n_ops \<in> set (io_service ?t) then length (op_queue ?t) else 0)"
    using Suc.prems(2) q t' by (auto split: if_splits)
  from Suc.IH [OF st kk] obtain s' where s': "execute (replicate k Run_posted) ?t = Some s'"
    "io_service s' = []" "status s' = status ?t"
    "op_queue s' = (if Post_handle_data_n_ops \<in> set (io_service ?t) then [] else op_queue ?t)"
    "completed s' = completed ?t @ deliveries (status ?t) (io_service ?t)
                 @ (if Post_handle_data_n_ops \<in> set (io_service ?t)
                    then map (\<lambda>op. (op_handler op, status ?t, 0)) (op_queue ?t) else [])"
    by blast
  have d: "deliveries (status s) (f # fs) = deliveries (status s) [f] @ deliveries (status s) fs"
    using deliveries_append [of "status s" "[f]" fs] by simp
  show ?case
    unfolding ex
    by (rule exI [of _ s']) (auto simp: s' t' q d deliveries_append deliveries_status)
qed

lemma run_all_errored_queue:
  assumes "status s \<noteq> success" and "op_queue s = [] \<or> Post_handle_data_n_ops \<in> set (io_service s)"
  shows "\<exists>k s'. execute (replicate k Run_posted) s = Some s'
           \<and> status s' = status s \<and> op_queue s' = []
           \<and> completed s' = completed s @ deliveries (status s) (io_service s)
                 @ map (\<lambda>op. (op_handler op, status s, 0)) (op_queue s)"
proof -
  from run_all_errored [OF assms(1) refl] obtain s' where
    "execute (replicate (length (io_service s)
             + (if Post_handle_data_n_ops \<in> set (io_service s) then length (op_queue s) else 0))
             Run_posted) s = Some s'"
    "status s' = status s"
    "op_queue s' = (if Post_handle_data_n_ops \<in> set (io_service s) then [] else op_queue s)"
    "completed s' = completed s @ deliveries (status s) (io_service s)
                 @ (if Post_handle_data_n_ops \<in> set (io_service s)
                    then map (\<lambda>op. (op_handler op, status s, 0)) (op_queue s) else [])"
    by blast
  with assms(2) show ?thesis
    by (intro exI [of _ "length (io_service s)
             + (if Post_handle_data_n_ops \<in> set (io_service s) then length (op_queue s) else 0)"]
          exI [of _ s']) auto
qed

text \<open>
  Claim C6, as stated, has every later \<open>async_read_some\<close> with a non-empty buffer
  complete with the saved error. A read that is still in the operation queue when
  \<open>cancel\<close> is called completes with \<open>operation_aborted\<close> instead: here a read
  fails with error 104, a caller then asks for 10 bytes, and \<open>cancel\<close> is called before
  the \<open>io_service\<close> has run \<open>handle_data_n_ops\<close>.
\<close>

theorem read_after_error_aborted_by_cancel:
  "execute [Call_start_pulling, Run_posted, Read_completes (other_error 104) 0,
            Call_async_read_some 10 (), Call_cancel, Run_posted, Run_posted]
       (create :: unit TLSStreamBufferer)
     = Some \<lparr>status = other_error 104, data_queue = 0, op_queue = [], pulling = False,
              io_service = [], socket_reads = 0, completed = [((), operation_aborted, 0)]\<rparr>"
  by (simp add: eval_defs)

text \<open>
  Claim C6, amended. When a pull read completes with an error \<open>ec\<close> other than
  \<open>operation_aborted\<close>, the handler discards the data queue, saves \<open>ec\<close> as the
  status, pops every pending operation and posts its completion; when the
  \<open>io_service\<close> runs what is posted, every one of these reads completes with
  \<open>ec\<close> and 0 bytes. In any state with \<open>ec\<close> saved, a later
  \<open>async_read_some\<close> with a non-empty buffer completes with \<open>ec\<close> and 0 bytes,
  after the reads that were pending before it, when the \<open>io_service\<close> runs what is
  posted, that is, unless \<open>cancel\<close> takes the read from the operation queue first
  or a later pull read saves another error. No event brings the status back to
  \<open>success\<close>.
\<close>

theorem read_error_fails_reads:
  fixes s :: "'h TLSStreamBufferer"
  assumes "ec \<noteq> success" and "ec \<noteq> operation_aborted"
  shows "pull_handler ec len s
           = s\<lparr>data_queue := 0, status := ec, op_queue := [],
               io_service := io_service s
                  @ map (\<lambda>op. Post_complete_status (op_handler op)) (op_queue s)\<rparr>
       \<and> (\<exists>k s'. execute (replicate k Run_posted) (pull_handler ec len s) = Some s'
              \<and> status s' = ec \<and> op_queue s' = []
              \<and> completed s' = completed s @ deliveries ec (io_service s)
                    @ map (\<lambda>op. (op_handler op, ec, 0)) (op_queue s))
       \<and> (\<forall>(t :: 'h TLSStreamBufferer) n h. status t = ec \<and> 0 < n \<longrightarrow>
             (\<exists>k t'. execute (replicate k Run_posted) (async_read_some n h t) = Some t'
                \<and> status t' = ec \<and> op_queue t' = []
                \<and> completed t' = completed t @ deliveries ec (io_service t)
                      @ map (\<lambda>op. (op_handler op, ec, 0)) (op_queue t) @ [(h, ec, 0)]))
       \<and> (\<forall>(t :: 'h TLSStreamBufferer) e. status t \<noteq> success \<longrightarrow> status (step e t) \<noteq> success)"
proof (intro conjI allI impI)
  show ph: "pull_handler ec len s
           = s\<lparr>data_queue := 0, status := ec, op_queue := [],
               io_service := io_service s
                  @ map (\<lambda>op. Post_complete_status (op_handler op)) (op_queue s)\<rparr>"
    by (rule pull_handler_error [OF assms])
  let ?p = "pull_handler ec len s"
  have "status ?p \<noteq> success" "op_queue ?p = [] \<or> Post_handle_data_n_ops \<in> set (io_service ?p)"
    using assms(1) by (simp_all add: ph)
  from run_all_errored_queue [OF this]
  show "\<exists>k s'. execute (replicate k Run_posted) ?p = Some s'
              \<and> status s' = ec \<and> op_queue s' = []
              \<and> completed s' = completed s @ deliveries ec (io_service s)
                    @ map (\<lambda>op. (op_handler op, ec, 0)) (op_queue s)"
    by (simp add: ph deliveries_append deliveries_status)
next
  fix t :: "'h TLSStreamBufferer" and n :: nat and h :: 'h
  assume a: "status t = ec \<and> 0 < n"
  let ?p = "async_read_some n h t"
  have p: "status ?p = ec" "io_service ?p = io_service t @ [Post_handle_data_n_ops]"
    "op_queue ?p = op_queue t @ [Op n h]" "completed ?p = completed t"
    using a by (simp_all add: async_read_some_def post_def)
  have "status ?p \<noteq> success" "op_queue ?p = [] \<or> Post_handle_data_n_ops \<in> set (io_service ?p)"
    using assms(1) p by simp_all
  from run_all_errored_queue [OF this]
  show "\<exists>k t'. execute (replicate k Run_posted) ?p = Some t'
                \<and> status t' = ec \<and> op_queue t' = []
                \<and> completed t' = completed t @ deliveries ec (io_service t)
                      @ map (\<lambda>op. (op_handler op, ec, 0)) (op_queue t) @ [(h, ec, 0)]"
    by (simp add: p deliveries_append)
next
  fix t :: "'h TLSStreamBufferer" and e :: "'h event"
  assume "status t \<noteq> success"
  then show "status (step e t) \<noteq> success"
    by (simp add: status_step split: event.splits)
qed

theorem read_error_fails_reads_witness:
  "execute [Run_posted, Run_posted, Run_posted]
      (async_read_some 10 ''r2''
         (pull_handler (other_error 104) 0
            \<lparr>status = success, data_queue = 7, op_queue = [Op 5 ''r1''], pulling = True,
             io_service = [], socket_reads = 0, completed = []\<rparr>))
    = Some \<lparr>status = other_error 104, data_queue = 0, op_queue = [], pulling = True,
             io_service = [], socket_reads = 0,
             completed = [(''r1'', other_error 104, 0), (''r2'', other_error 104, 0)]\<rparr>"
  using read_error_fails_reads [of "other_error 104" 0 "\<lparr>status = success, data_queue = 7, op_queue = [Op 5 ''r1''], pulling = True,
             io_service = [], socket_reads = 0, completed = []\<rparr>"]
  by (simp add: eval_defs)

subsection \<open>Pausing and restarting the pull\<close>

lemma restart_step:
  assumes "e \<noteq> Call_start_pulling" "\<not> pulling s" "pulling (step e s)"
  shows "data_queue (step e s) < lower_queue_size_bound \<and> status (step e s) = success"
proof (cases e)
  case Call_start_pulling
  with assms(1) show ?thesis by simp
next
  case (Call_async_read_some n h)
  with assms(2,3) show ?thesis
    by (simp add: step_def async_read_some_def post_def split: if_splits)
next
  case Call_cancel
  with assms(3) show ?thesis
    by (simp add: step_def cancel_def cancel_ops_eq)
next
  case Run_posted
  show ?thesis
  proof (cases "io_service s")
    case Nil
    with Run_posted assms(2,3) show ?thesis by (simp add: step_def)
  next
    case (Cons f fs)
    show ?thesis
    proof (cases f)
      case Post_handle_data_n_ops
      with Run_posted Cons have st: "step e s = handle_data_n_ops (s\<lparr>io_service := fs\<rparr>)"
        by (simp add: step_def run_posted_def)
      from assms(2,3) pulling_handle_paused [of "s\<lparr>io_service := fs\<rparr>"]
      show ?thesis unfolding st by simp
    qed (use Run_posted Cons assms(2,3) in
          \<open>simp_all add: step_def run_posted_def async_pull_packets_def split: if_splits\<close>)
  qed
next
  case (Read_completes ec n)
  let ?s1 = "s\<lparr>socket_reads := socket_reads s - 1\<rparr>"
  let ?mid = "(if ec = success then
          (let s1 = ?s1\<lparr>data_queue := data_queue ?s1 + n\<rparr>
           in if status s1 = success then async_pull_packets s1 else s1)
        else if ec = operation_aborted then cancel ?s1
        else ?s1\<lparr>data_queue := 0, status := ec\<rparr>)"
  have st: "step e s = handle_data_n_ops ?mid"
    using Read_completes by (simp add: step_def pull_handler_def)
  have "\<not> pulling ?mid"
    using assms(2) by (simp add: async_pull_packets_def cancel_def cancel_ops_eq Let_def)
  from pulling_handle_paused [OF this] assms(3) show ?thesis
    unfolding st by simp
qed

text \<open>
  Claim C8, as stated, has pulling never restarted from the paused state while the data
  queue is at or above the lower bound. \<open>start_pulling\<close> is public and tests only the
  flag. Below, 328 reads of 51200 bytes fill the queue to 16793600 bytes, where
  \<open>async_pull_packets\<close> pauses; a caller reads 100000 bytes, which leaves 16693600,
  between the two bounds, and the bufferer stays paused; a call of \<open>start_pulling\<close>
  then sets the flag and the posted \<open>async_pull_packets\<close> starts a read.
\<close>

theorem start_pulling_restarts_above_lower_bound:
  "execute ([Call_start_pulling, Run_posted]
            @ replicate 327 (Read_completes success receive_buffer_size)
            @ [Read_completes success receive_buffer_size,
               Call_async_read_some 100000 (), Run_posted, Run_posted])
      (create :: unit TLSStreamBufferer)
     = Some \<lparr>status = success, data_queue = 16693600, op_queue = [], pulling = False,
              io_service = [], socket_reads = 0, completed = [((), success, 100000)]\<rparr>
   \<and> execute [Call_start_pulling, Run_posted]
        \<lparr>status = success, data_queue = 16693600, op_queue = [], pulling = False,
         io_service = [], socket_reads = 0, completed = [((), success, 100000)]\<rparr>
     = Some \<lparr>status = success, data_queue = 16693600, op_queue = [], pulling = True,
              io_service = [], socket_reads = 1, completed = [((), success, 100000)]\<rparr>
   \<and> lower_queue_size_bound \<le> 16693600"
proof -
  let ?s0 = "\<lparr>status = success, data_queue = 0, op_queue = [], pulling = True,
             io_service = [], socket_reads = 1, completed = []\<rparr> :: unit TLSStreamBufferer"
  have pre: "execute [Call_start_pulling, Run_posted] (create :: unit TLSStreamBufferer) = Some ?s0"
    by (simp add: eval_defs)
  have many: "execute (replicate 327 (Read_completes success receive_buffer_size)) ?s0
      = Some (?s0\<lparr>data_queue := data_queue ?s0 + 327 * receive_buffer_size\<rparr>)"
    by (rule refill_many) (simp_all add: receive_buffer_size_def higher_queue_size_bound_def)
  have rest: "execute [Read_completes success receive_buffer_size,
               Call_async_read_some 100000 (), Run_posted, Run_posted]
         (?s0\<lparr>data_queue := data_queue ?s0 + 327 * receive_buffer_size\<rparr>)
      = Some \<lparr>status = success, data_queue = 16693600, op_queue = [], pulling = False,
              io_service = [], socket_reads = 0, completed = [((), success, 100000)]\<rparr>"
    by (simp add: eval_defs)
  have 1: "execute ([Call_start_pulling, Run_posted]
            @ replicate 327 (Read_completes success receive_buffer_size)
            @ [Read_completes success receive_buffer_size,
               Call_async_read_some 100000 (), Run_posted, Run_posted])
      (create :: unit TLSStreamBufferer)
     = Some \<lparr>status = success, data_queue = 16693600, op_queue = [], pulling = False,
              io_service = [], socket_reads = 0, completed = [((), success, 100000)]\<rparr>"
    by (simp only: execute_append pre option.case many rest)
  have 2: "execute [Call_start_pulling, Run_posted]
        \<lparr>status = success, data_queue = 16693600, op_queue = [], pulling = False,
         io_service = [], socket_reads = 0, completed = [((), success, 100000)]\<rparr>
     = Some \<lparr>status = success, data_queue = 16693600, op_queue = [], pulling = True,
              io_service = [], socket_reads = 1, completed = [((), success, 100000)]\<rparr>"
    by (simp add: eval_defs)
  from 1 2 show ?thesis by (simp add: lower_queue_size_bound_def)
qed

text \<open>
  Claim C8, amended. \<open>async_pull_packets\<close> starts a read exactly when the data queue
  is below the higher bound, and otherwise clears the flag and starts none; so does the
  handler of a read that, without error, brings the queue to the higher bound. From a state
  without error in which the flag is clear, \<open>handle_data_n_ops\<close> sets the flag exactly
  when the data queue it leaves is below the lower bound. Apart from a call of
  \<open>start_pulling\<close> by the owner, no event sets a clear flag unless it leaves the data
  queue below the lower bound, with no error saved.
\<close>

theorem pause_and_restart:
  fixes s :: "'h TLSStreamBufferer"
  shows "(higher_queue_size_bound \<le> data_queue s
            \<longrightarrow> async_pull_packets s = s\<lparr>pulling := False\<rparr>)
       \<and> (data_queue s < higher_queue_size_bound
            \<longrightarrow> async_pull_packets s = s\<lparr>socket_reads := socket_reads s + 1\<rparr>)
       \<and> (status s = success \<and> higher_queue_size_bound \<le> data_queue s + n
            \<longrightarrow> pull_handler success n s
                  = handle_data_n_ops (s\<lparr>data_queue := data_queue s + n, pulling := False\<rparr>))
       \<and> (\<not> pulling s \<and> status s = success
            \<longrightarrow> pulling (handle_data_n_ops s)
                  = (data_queue (handle_data_n_ops s) < lower_queue_size_bound))
       \<and> (\<forall>e. e \<noteq> Call_start_pulling \<and> \<not> pulling s \<and> pulling (step e s)
            \<longrightarrow> data_queue (step e s) < lower_queue_size_bound \<and> status (step e s) = success)"
  using restart_step [of _ s] pulling_handle_paused [of s]
  by (auto simp: async_pull_packets_def pull_handler_def)

theorem pause_and_restart_witness:
  "step Run_posted \<lparr>status = success, data_queue = 1048600, op_queue = [Op 100 ()],
           pulling = False, io_service = [Post_handle_data_n_ops], socket_reads = 0,
           completed = []\<rparr>
     = \<lparr>status = success, data_queue = 1048500, op_queue = [],
           pulling = True, io_service = [Post_complete () success 100, Post_async_pull_packets],
           socket_reads = 0, completed = []\<rparr>
   \<and> (1048500 :: nat) < lower_queue_size_bound
   \<and> async_pull_packets \<lparr>status = success, data_queue = 16793600, op_queue = [],
           pulling = True, io_service = [], socket_reads = 0, completed = ([] :: (unit \<times> error_code \<times> nat) list)\<rparr>
     = \<lparr>status = success, data_queue = 16793600, op_queue = [],
           pulling = False, io_service = [], socket_reads = 0, completed = []\<rparr>"
  using pause_and_restart [of "\<lparr>status = success, data_queue = 1048600, op_queue = [Op 100 ()],
           pulling = False, io_service = [Post_handle_data_n_ops], socket_reads = 0,
           completed = []\<rparr>"]
    pause_and_restart [of "\<lparr>status = success, data_queue = 16793600, op_queue = [],
           pulling = True, io_service = [], socket_reads = 0, completed = ([] :: (unit \<times> error_code \<times> nat) list)\<rparr>"]
  by (simp add: eval_defs)

subsection \<open>The size of the data queue\<close>

lemma one_pull_handle: "one_pull s \<Longrightarrow> one_pull (handle_data_n_ops s)"
  using handle_props [of s] unfolding one_pull_def
  by (cases "pulling s"; cases "pulling (handle_data_n_ops s)") auto

lemma count_cancel_ops:
  "count_list (io_service (cancel_ops s)) Post_async_pull_packets
     = count_list (io_service s) Post_async_pull_packets"
proof -
  have "count_list (map (\<lambda>op. Post_complete (op_handler op) operation_aborted 0) q) Post_async_pull_packets = 0"
    for q :: "'a pending_read list"
    by (induction q) simp_all
  then show ?thesis by (simp add: cancel_ops_eq)
qed

lemma one_pull_cancel:
  "socket_reads s = 0 \<Longrightarrow> count_list (io_service s) Post_async_pull_packets = 0 \<Longrightarrow> one_pull (cancel s)"
  unfolding one_pull_def cancel_def
  by (simp add: count_cancel_ops) (simp add: cancel_ops_eq higher_queue_size_bound_def)

lemma one_pull_async_pull_packets:
  "socket_reads s + count_list (io_service s) Post_async_pull_packets = 0 \<Longrightarrow>
   data_queue s < higher_queue_size_bound + receive_buffer_size \<Longrightarrow> pulling s \<Longrightarrow>
   one_pull (async_pull_packets s)"
  unfolding one_pull_def async_pull_packets_def by simp

lemma one_pull_pull_handler:
  assumes "one_pull s" "0 < socket_reads s" "n \<le> receive_buffer_size"
  shows "one_pull (pull_handler ec n (s\<lparr>socket_reads := socket_reads s - 1\<rparr>))"
proof -
  from assms have f: "socket_reads s = 1" "count_list (io_service s) Post_async_pull_packets = 0"
    "pulling s" "data_queue s < higher_queue_size_bound"
    unfolding one_pull_def by (auto split: if_splits)
  let ?s1 = "s\<lparr>socket_reads := socket_reads s - 1\<rparr>"
  let ?mid = "(if ec = success then
          (let s1 = ?s1\<lparr>data_queue := data_queue ?s1 + n\<rparr>
           in if status s1 = success then async_pull_packets s1 else s1)
        else if ec = operation_aborted then cancel ?s1
        else ?s1\<lparr>data_queue := 0, status := ec\<rparr>)"
  have "one_pull ?mid"
  proof (cases "ec = success")
    case True
    with f assms(3) show ?thesis
      by (auto simp: one_pull_def async_pull_packets_def Let_def)
  next
    case False
    show ?thesis
    proof (cases "ec = operation_aborted")
      case True
      with False f show ?thesis by (simp add: one_pull_cancel)
    next
      case na: False
      with False f show ?thesis
        by (simp add: one_pull_def higher_queue_size_bound_def)
    qed
  qed
  then show ?thesis unfolding pull_handler_def by (rule one_pull_handle)
qed

lemma one_pull_step:
  assumes "one_pull s" "possible e s" "e \<noteq> Call_cancel"
  shows "one_pull (step e s)"
proof (cases e)
  case Call_start_pulling
  with assms(1) show ?thesis
    by (auto simp: step_def start_pulling_def post_def one_pull_def)
next
  case (Call_async_read_some n h)
  with assms(1) show ?thesis
    by (auto simp: step_def async_read_some_def post_def one_pull_def)
next
  case Call_cancel
  with assms(3) show ?thesis by simp
next
  case Run_posted
  with assms(2) obtain f fs where q: "io_service s = f # fs"
    by (cases "io_service s") (auto simp: possible_def)
  show ?thesis
  proof (cases f)
    case Post_async_pull_packets
    with q assms(1) have "one_pull (async_pull_packets (s\<lparr>io_service := fs\<rparr>))"
      by (intro one_pull_async_pull_packets) (auto simp: one_pull_def split: if_splits)
    with Run_posted q Post_async_pull_packets show ?thesis
      by (simp add: step_def run_posted_def)
  next
    case Post_handle_data_n_ops
    with q assms(1) have "one_pull (s\<lparr>io_service := fs\<rparr>)"
      by (simp add: one_pull_def)
    then have "one_pull (handle_data_n_ops (s\<lparr>io_service := fs\<rparr>))"
      by (rule one_pull_handle)
    with Run_posted q Post_handle_data_n_ops show ?thesis
      by (simp add: step_def run_posted_def)
  next
    case (Post_complete h ec n)
    with q assms(1) Run_posted show ?thesis
      by (simp add: step_def run_posted_def one_pull_def)
  next
    case (Post_complete_status h)
    with q assms(1) Run_posted show ?thesis
      by (simp add: step_def run_posted_def one_pull_def)
  qed
next
  case (Read_completes ec n)
  with assms(2) have "0 < socket_reads s" "n \<le> receive_buffer_size"
    by (simp_all add: possible_def)
  from one_pull_pull_handler [OF assms(1) this] Read_completes show ?thesis
    by (simp add: step_def)
qed

lemma one_pull_create: "one_pull create"
  by (simp add: one_pull_def create_def higher_queue_size_bound_def)

lemma one_pull_one_read: "one_pull s \<Longrightarrow> socket_reads s \<le> 1"
  by (auto simp: one_pull_def split: if_splits)

text \<open>
  Only the \<open>commit\<close> of the read handler adds to the data queue.
\<close>

lemma socket_reads_handle [simp]: "socket_reads (handle_data_n_ops s) = socket_reads s"
  using handle_props [of s] by simp

lemma data_queue_handle: "data_queue (handle_data_n_ops s) \<le> data_queue s"
  using handle_props [of s] by simp

lemma data_queue_cancel [simp]: "data_queue (cancel s) = 0"
  by (simp add: cancel_def cancel_ops_eq)

lemma data_queue_run_posted: "data_queue (step Run_posted s) \<le> data_queue s"
proof (cases "io_service s")
  case Nil
  then show ?thesis by (simp add: step_def)
next
  case (Cons f fs)
  show ?thesis
  proof (cases f)
    case Post_handle_data_n_ops
    with Cons data_queue_handle [of "s\<lparr>io_service := fs\<rparr>"] show ?thesis
      by (simp add: step_def run_posted_def)
  qed (use Cons in \<open>simp_all add: step_def run_posted_def async_pull_packets_def\<close>)
qed

lemma data_queue_read_completes:
  "data_queue (step (Read_completes ec n) s) \<le> (if ec = success then data_queue s + n else 0)"
proof -
  let ?s1 = "s\<lparr>socket_reads := socket_reads s - 1\<rparr>"
  let ?mid = "(if ec = success then
          (let s1 = ?s1\<lparr>data_queue := data_queue ?s1 + n\<rparr>
           in if status s1 = success then async_pull_packets s1 else s1)
        else if ec = operation_aborted then cancel ?s1
        else ?s1\<lparr>data_queue := 0, status := ec\<rparr>)"
  have "data_queue ?mid = (if ec = success then data_queue s + n else 0)"
    by (simp add: async_pull_packets_def Let_def)
  moreover have "step (Read_completes ec n) s = handle_data_n_ops ?mid"
    by (simp add: step_def pull_handler_def)
  ultimately show ?thesis
    using data_queue_handle [of ?mid] by simp
qed

text \<open>
  Every event of a buffered TLS socket keeps \<open>bounded_pull\<close>.
\<close>

lemma bounded_pull_open:
  assumes "one_pull (p_puller b)" "is_open b" "socket_possible e b"
  shows "bounded_pull (socket_step e b)"
proof (cases e)
  case (Call_handshake ec)
  from one_pull_step [OF assms(1), of Call_start_pulling] Call_handshake assms(1,2)
  show ?thesis
    by (simp add: socket_step_def handshake_def bounded_pull_def possible_def step_def)
next
  case (Call_socket_async_read_some n h)
  from one_pull_step [OF assms(1), of "Call_async_read_some n h"]
    Call_socket_async_read_some assms(2)
  show ?thesis
    by (simp add: socket_step_def socket_async_read_some_def bounded_pull_def possible_def
        step_def)
next
  case Call_close
  from one_pull_one_read [OF assms(1)] Call_close assms(2) show ?thesis
    by (simp add: socket_step_def close_def lowest_layer_close_def bounded_pull_def Let_def)
next
  case Handler_runs
  with assms(3) have "possible Run_posted (p_puller b)"
    by (simp add: socket_possible_def)
  from one_pull_step [OF assms(1) this] Handler_runs assms(2) show ?thesis
    by (simp add: socket_step_def bounded_pull_def)
next
  case (Socket_read_completes ec n)
  with assms(3) have "possible (Read_completes ec n) (p_puller b)"
    by (simp add: socket_possible_def)
  from one_pull_step [OF assms(1) this] Socket_read_completes assms(2) show ?thesis
    by (simp add: socket_step_def bounded_pull_def)
qed

lemma bounded_pull_closed:
  assumes "bounded_pull b" "\<not> is_open b" "socket_possible e b"
  shows "bounded_pull (socket_step e b)"
proof -
  from assms(1,2) have inv:
    "data_queue (p_puller b) + in_flight_at_close b * receive_buffer_size \<le> receive_buffer_size"
    by (simp add: bounded_pull_def)
  show ?thesis
  proof (cases e)
    case (Call_handshake ec)
    with inv assms(2) show ?thesis
      by (simp add: socket_step_def handshake_def bounded_pull_def start_pulling_def post_def)
  next
    case (Call_socket_async_read_some n h)
    with inv assms(2) show ?thesis
      by (simp add: socket_step_def socket_async_read_some_def bounded_pull_def
          async_read_some_def post_def)
  next
    case Call_close
    with inv assms(2) show ?thesis
      by (simp add: socket_step_def close_def lowest_layer_close_def bounded_pull_def Let_def
          receive_buffer_size_def)
  next
    case Handler_runs
    with inv assms(2) data_queue_run_posted [of "p_puller b"] show ?thesis
      by (simp add: socket_step_def bounded_pull_def)
  next
    case (Socket_read_completes ec n)
    with assms(3) have n: "n \<le> receive_buffer_size"
      and first: "ec = success \<Longrightarrow> 0 < in_flight_at_close b"
      using assms(2) by (simp_all add: socket_possible_def possible_def)
    show ?thesis
    proof (cases "ec = success")
      case True
      from first [OF True] obtain k where k: "in_flight_at_close b = Suc k"
        by (cases "in_flight_at_close b") simp_all
      from data_queue_read_completes [of ec n "p_puller b"] True
      have "data_queue (step (Read_completes ec n) (p_puller b)) \<le> data_queue (p_puller b) + n"
        by simp
      with inv n k Socket_read_completes True assms(2) show ?thesis
        by (simp add: socket_step_def bounded_pull_def receive_buffer_size_def)
    next
      case False
      from data_queue_read_completes [of ec n "p_puller b"] False
      have "data_queue (step (Read_completes ec n) (p_puller b)) = 0"
        by simp
      with inv Socket_read_completes False assms(2) show ?thesis
        by (simp add: socket_step_def bounded_pull_def receive_buffer_size_def)
    qed
  qed
qed

lemma bounded_pull_step:
  "bounded_pull b \<Longrightarrow> socket_possible e b \<Longrightarrow> bounded_pull (socket_step e b)"
  using bounded_pull_open [of b e] bounded_pull_closed [of b e]
  by (cases "is_open b") (simp_all add: bounded_pull_def)

lemma bounded_pull_execute:
  "bounded_pull b \<Longrightarrow> socket_execute es b = Some b' \<Longrightarrow> bounded_pull b'"
proof (induction es arbitrary: b)
  case Nil
  then show ?case by simp
next
  case (Cons e es)
  from Cons.prems(2) have p: "socket_possible e b"
    and ex: "socket_execute es (socket_step e b) = Some b'"
    by (simp_all split: if_splits)
  from Cons.IH [OF bounded_pull_step [OF Cons.prems(1) p] ex] show ?case .
qed

lemma bounded_pull_create: "bounded_pull buffered_tls_socket"
  by (simp add: bounded_pull_def buffered_tls_socket_def one_pull_create)

lemma bounded_pull_bound:
  assumes "bounded_pull b"
  shows "data_queue (p_puller b) \<le> higher_queue_size_bound + receive_buffer_size"
    and "socket_reads (p_puller b) = 0 \<or> data_queue (p_puller b) < higher_queue_size_bound"
  using assms
  by (auto simp: bounded_pull_def one_pull_def higher_queue_size_bound_def
      receive_buffer_size_def split: if_splits)

lemmas socket_eval_defs = socket_possible_def socket_step_def buffered_tls_socket_def
  handshake_def close_def lowest_layer_close_def socket_async_read_some_def

text \<open>
  Claim C5. In every execution of a buffered TLS socket, from its construction on, the data
  queue of its bufferer never holds more than
  \<open>higher_queue_size_bound + receive_buffer_size\<close> bytes, and a read of the socket is
  in flight only while the queue is below the higher bound. \<open>async_pull_packets\<close>, the
  one place where a read is started, starts it only with the queue below the higher bound;
  and the completion of a read adds at most \<open>receive_buffer_size\<close> bytes to the queue.
\<close>

theorem data_queue_bounded:
  assumes "socket_execute es buffered_tls_socket = Some b"
  shows "data_queue (p_puller b) \<le> higher_queue_size_bound + receive_buffer_size
       \<and> (socket_reads (p_puller b) = 0 \<or> data_queue (p_puller b) < higher_queue_size_bound)
       \<and> (socket_reads (async_pull_packets t) \<noteq> socket_reads t
             \<longrightarrow> data_queue t < higher_queue_size_bound)
       \<and> (socket_possible (Socket_read_completes ec n) b \<longrightarrow>
             data_queue (p_puller (socket_step (Socket_read_completes ec n) b))
               \<le> data_queue (p_puller b) + receive_buffer_size)"
proof -
  from bounded_pull_execute [OF bounded_pull_create assms] have inv: "bounded_pull b" .
  have started: "socket_reads (async_pull_packets t) \<noteq> socket_reads t
      \<longrightarrow> data_queue t < higher_queue_size_bound"
    by (simp add: async_pull_packets_def)
  have committed: "socket_possible (Socket_read_completes ec n) b \<longrightarrow>
      data_queue (p_puller (socket_step (Socket_read_completes ec n) b))
        \<le> data_queue (p_puller b) + receive_buffer_size"
    using data_queue_read_completes [of ec n "p_puller b"]
    by (auto simp: socket_possible_def possible_def socket_step_def split: if_splits)
  from bounded_pull_bound [OF inv] started committed show ?thesis by simp
qed

theorem data_queue_bounded_witness:
  "socket_execute
     [Call_handshake success, Handler_runs, Socket_read_completes success 51200,
      Call_socket_async_read_some 100 (), Handler_runs, Handler_runs, Call_close,
      Call_socket_async_read_some 7 (), Handler_runs, Handler_runs,
      Socket_read_completes success 51200] buffered_tls_socket
     = Some \<lparr>p_puller = \<lparr>status = success, data_queue = 51193, op_queue = [],
                 pulling = True, io_service = [Post_complete () success 7],
                 socket_reads = 2, completed = [((), success, 100)]\<rparr>,
               is_open = False, in_flight_at_close = 0\<rparr>
   \<and> (51193 :: nat) \<le> higher_queue_size_bound + receive_buffer_size
   \<and> (51193 :: nat) < higher_queue_size_bound
   \<and> socket_possible (Socket_read_completes (other_error 9) 0)
        \<lparr>p_puller = \<lparr>status = success, data_queue = 51193, op_queue = [],
                 pulling = True, io_service = [Post_complete () success 7],
                 socket_reads = 2, completed = [((), success, 100)]\<rparr>,
               is_open = False, in_flight_at_close = 0\<rparr>
   \<and> data_queue (p_puller (socket_step (Socket_read_completes (other_error 9) 0)
        \<lparr>p_puller = \<lparr>status = success, data_queue = 51193, op_queue = [],
                 pulling = True, io_service = [Post_complete () success 7],
                 socket_reads = 2, completed = [((), success, 100)]\<rparr>,
               is_open = False, in_flight_at_close = 0\<rparr>))
       \<le> 51193 + receive_buffer_size"
proof -
  let ?b = "\<lparr>p_puller = \<lparr>status = success, data_queue = 51193, op_queue = [],
                 pulling = True, io_service = [Post_complete () success 7],
                 socket_reads = 2, completed = [((), success, 100)]\<rparr>,
               is_open = False, in_flight_at_close = 0\<rparr> :: unit basic_buffered_tls_socket"
  have e: "socket_execute
     [Call_handshake success, Handler_runs, Socket_read_completes success 51200,
      Call_socket_async_read_some 100 (), Handler_runs, Handler_runs, Call_close,
      Call_socket_async_read_some 7 (), Handler_runs, Handler_runs,
      Socket_read_completes success 51200] buffered_tls_socket = Some ?b"
    by (simp add: eval_defs socket_eval_defs)
  have p: "socket_possible (Socket_read_completes (other_error 9) 0) ?b"
    by (simp add: socket_possible_def possible_def)
  from data_queue_bounded [OF e, of "p_puller ?b" "other_error 9" 0] e p show ?thesis
    by (simp add: async_pull_packets_def)
qed

section \<open>Link layers: what \<open>make_endpoint\<close> reads and builds\<close>








end
